theory Spec2Isabelle
  imports Main
begin

section \<open>Word ladder: the search of \<^verbatim>\<open>wordLadder.py\<close>\<close>

text \<open>
  Tokens are Python strings, modelled as \<^typ>\<open>string\<close>, one \<^typ>\<open>char\<close> for each
  character; the code only compares characters, so nothing depends on which characters exist
  besides the 26 it substitutes. The caller's dictionary is a Python set of strings, modelled
  as \<^typ>\<open>string set\<close>. The function raises nowhere: every index it reads is produced
  by \<^verbatim>\<open>range(len(current_word))\<close>, so the model is a total function into lists.
  Names are the source's, except that the parameter \<^verbatim>\<open>end\<close> is written \<open>end_word\<close>.
\<close>

subsection \<open>Candidate generation (source lines 35 to 41)\<close>

text \<open>The string literal iterated by the inner \<^verbatim>\<open>for c in ...\<close> loop.\<close>

definition alphabet :: string where
  "alphabet = ''abcdefghijklmnopqrstuvwxyz''"

text \<open>\<^verbatim>\<open>current_word[:i] + c + current_word[i+1:]\<close>\<close>

definition new_word_at :: "string \<Rightarrow> nat \<Rightarrow> char \<Rightarrow> string" where
  "new_word_at current_word i c = take i current_word @ [c] @ drop (i + 1) current_word"

text \<open>
  The values \<^verbatim>\<open>new_word\<close> takes during the two nested \<^verbatim>\<open>for\<close> loops, in the
  order the loops produce them: positions ascending, letters in alphabet order, the letter
  equal to \<^verbatim>\<open>current_word[i]\<close> skipped by \<^verbatim>\<open>continue\<close>.
\<close>

definition candidates_at :: "string \<Rightarrow> nat \<Rightarrow> string list" where
  "candidates_at current_word i =
     map (new_word_at current_word i) (filter (\<lambda>c. c \<noteq> current_word ! i) alphabet)"

definition candidates :: "string \<Rightarrow> string list" where
  "candidates current_word = concat (map (candidates_at current_word) [0..<length current_word])"

subsection \<open>The helper \<^verbatim>\<open>is_one_letter_different\<close> (source lines 56 to 62)\<close>

definition diff_count :: "string \<Rightarrow> string \<Rightarrow> nat" where
  "diff_count word1 word2 = sum_list (map (\<lambda>_. 1) (filter (\<lambda>(c1, c2). c1 \<noteq> c2) (zip word1 word2)))"

definition is_one_letter_different :: "string \<Rightarrow> string \<Rightarrow> bool" where
  "is_one_letter_different word1 word2 =
     (if length word1 \<noteq> length word2 then False else diff_count word1 word2 = 1)"

subsection \<open>The search loop as a machine (source lines 28 to 53)\<close>

text \<open>
  A queue entry is the pair \<^verbatim>\<open>(current_word, path_to_current_word)\<close>. A configuration is
  either at the test of \<^verbatim>\<open>while queue:\<close> (\<open>Head visited queue\<close>) or inside the
  \<^verbatim>\<open>for\<close> loops of one dequeued entry
  (\<open>Inner visited queue current_word path pending\<close>, where \<open>pending\<close> lists the values
  of \<^verbatim>\<open>new_word\<close> still to come). The sets \<^verbatim>\<open>visited\<close> and the deque are objects
  local to the call.
\<close>

type_synonym entry = "string \<times> string list"

datatype config =
    Head "string set" "entry list"
  | Inner "string set" "entry list" string "string list" "string list"

datatype outcome = Done "string list" | Next config

fun step :: "string set \<Rightarrow> string \<Rightarrow> config \<Rightarrow> outcome" where
  "step dictionary end_word (Head visited []) = Done []"
| "step dictionary end_word (Head visited ((current_word, path) # queue)) =
     Next (Inner visited queue current_word path (candidates current_word))"
| "step dictionary end_word (Inner visited queue current_word path []) =
     Next (Head visited queue)"
| "step dictionary end_word (Inner visited queue current_word path (new_word # pending)) =
     (if new_word = end_word then Done (path @ [new_word])
      else if new_word \<in> dictionary \<and> new_word \<notin> visited
      then Next (Inner (insert new_word visited) (queue @ [(new_word, path @ [new_word])])
                   current_word path pending)
      else Next (Inner visited queue current_word path pending))"

fun visited_of :: "config \<Rightarrow> string set" where
  "visited_of (Head visited queue) = visited"
| "visited_of (Inner visited queue current_word path pending) = visited"

fun queue_of :: "config \<Rightarrow> entry list" where
  "queue_of (Head visited queue) = queue"
| "queue_of (Inner visited queue current_word path pending) = queue"

fun pending_of :: "config \<Rightarrow> string list" where
  "pending_of (Head visited queue) = []"
| "pending_of (Inner visited queue current_word path pending) = pending"

text \<open>The entries not yet fully expanded: the queue, preceded by the entry being expanded.\<close>

fun active :: "config \<Rightarrow> entry list" where
  "active (Head visited queue) = queue"
| "active (Inner visited queue current_word path pending) = (current_word, path) # queue"

subsection \<open>Termination of the loop\<close>

text \<open>
  Every word a configuration can still produce has the length of a word the configuration
  already holds, so the words that may still be added to \<^verbatim>\<open>visited\<close> form a finite
  set, which shrinks with every addition.
\<close>

definition words_of :: "config \<Rightarrow> string set" where
  "words_of c = fst ` set (active c) \<union> set (pending_of c)"

definition universe :: "config \<Rightarrow> string set" where
  "universe c = {x. \<exists>w \<in> words_of c. length x = length w}"

definition unvisited :: "config \<Rightarrow> nat" where
  "unvisited c = card (universe c - visited_of c)"

fun stage :: "config \<Rightarrow> nat" where
  "stage (Head visited queue) = 0"
| "stage (Inner visited queue current_word path pending) = Suc (length pending)"

definition progress :: "config \<Rightarrow> nat \<times> nat \<times> nat" where
  "progress c = (unvisited c, length (queue_of c), stage c)"

lemma length_new_word_at:
  "i < length w \<Longrightarrow> length (new_word_at w i c) = length w"
  by (simp add: new_word_at_def)

lemma length_candidates:
  "x \<in> set (candidates w) \<Longrightarrow> length x = length w"
  by (auto simp: candidates_def candidates_at_def length_new_word_at)

lemma finite_universe: "finite (universe c)"
proof -
  have fin: "finite (words_of c)"
    by (simp add: words_of_def)
  have "universe c \<subseteq> (\<Union>w \<in> words_of c. {x. set x \<subseteq> UNIV \<and> length x = length w})"
    by (auto simp: universe_def)
  moreover have "finite (\<Union>w \<in> words_of c. {x::string. set x \<subseteq> UNIV \<and> length x = length w})"
    using fin by (intro finite_UN_I finite_lists_length_eq) simp_all
  ultimately show ?thesis
    by (rule finite_subset)
qed

lemma unvisited_mono:
  assumes "universe c' \<subseteq> universe c" "visited_of c \<subseteq> visited_of c'"
  shows "unvisited c' \<le> unvisited c"
  unfolding unvisited_def
  using assms by (intro card_mono) (auto simp: finite_universe)

lemma unvisited_less:
  assumes "universe c' \<subseteq> universe c" "visited_of c \<subseteq> visited_of c'"
    and "x \<in> universe c" "x \<notin> visited_of c" "x \<in> visited_of c'"
  shows "unvisited c' < unvisited c"
  unfolding unvisited_def
  using assms by (intro psubset_card_mono) (auto simp: finite_universe)

lemma step_progress:
  assumes "step dictionary end_word c = Next c'"
  shows "(progress c', progress c) \<in> less_than <*lex*> less_than <*lex*> less_than"
proof (cases c)
  case (Head visited queue)
  with assms obtain w p rest where q: "queue = (w, p) # rest"
    and c': "c' = Inner visited rest w p (candidates w)"
    by (cases queue) auto
  have "universe c' \<subseteq> universe c"
    using Head q c' by (auto simp: universe_def words_of_def dest: length_candidates)
  then have "unvisited c' \<le> unvisited c"
    using Head c' by (intro unvisited_mono) simp_all
  moreover have "length (queue_of c') < length (queue_of c)"
    using Head q c' by simp
  ultimately show ?thesis
    by (auto simp: progress_def)
next
  case (Inner visited queue w p pending)
  show ?thesis
  proof (cases pending)
    case Nil
    with assms Inner have c': "c' = Head visited queue"
      by simp
    have "universe c' \<subseteq> universe c"
      using Inner c' by (auto simp: universe_def words_of_def)
    then have "unvisited c' \<le> unvisited c"
      using Inner c' by (intro unvisited_mono) simp_all
    then show ?thesis
      using Inner Nil c' by (auto simp: progress_def)
  next
    case (Cons y rest)
    show ?thesis
    proof (cases "y \<in> dictionary \<and> y \<notin> visited")
      case True
      with assms Inner Cons have c': "c' = Inner (insert y visited) (queue @ [(y, p @ [y])]) w p rest"
        by (auto split: if_splits)
      have sub: "universe c' \<subseteq> universe c"
        using Inner Cons c' by (auto simp: universe_def words_of_def)
      have "y \<in> universe c"
        using Inner Cons by (auto simp: universe_def words_of_def)
      with sub have "unvisited c' < unvisited c"
        using Inner c' True by (intro unvisited_less[where x = y]) auto
      then show ?thesis
        by (simp add: progress_def)
    next
      case False
      with assms Inner Cons have c': "c' = Inner visited queue w p rest"
        by (auto split: if_splits)
      have "universe c' \<subseteq> universe c"
        using Inner Cons c' by (auto simp: universe_def words_of_def)
      then have "unvisited c' \<le> unvisited c"
        using Inner c' by (intro unvisited_mono) simp_all
      then show ?thesis
        using Inner Cons c' by (auto simp: progress_def)
    qed
  qed
qed

lemma wf_progress:
  "wf (inv_image (less_than <*lex*> less_than <*lex*> less_than) progress)"
  by (intro wf_inv_image wf_lex_prod wf_less_than)

lemma config_induct [case_names step]:
  assumes "\<And>c. (\<And>c'. step dictionary end_word c = Next c' \<Longrightarrow> P c') \<Longrightarrow> P c"
  shows "P c"
  using wf_progress
proof (induction c rule: wf_induct_rule)
  case (less c)
  show ?case
    by (rule assms) (rule less, simp add: step_progress)
qed

text \<open>The loop: run the machine until it returns.\<close>

function run :: "string set \<Rightarrow> string \<Rightarrow> config \<Rightarrow> string list" where
  "run dictionary end_word c =
     (case step dictionary end_word c of
        Done result \<Rightarrow> result
      | Next c' \<Rightarrow> run dictionary end_word c')"
  by pat_completeness auto
termination
proof (relation "inv_image (less_than <*lex*> less_than <*lex*> less_than)
                   (\<lambda>(dictionary, end_word, c). progress c)")
  show "wf (inv_image (less_than <*lex*> less_than <*lex*> less_than)
              (\<lambda>(dictionary :: string set, end_word :: string, c). progress c))"
    by (intro wf_inv_image wf_lex_prod wf_less_than)
next
  fix dictionary end_word c c'
  assume "step dictionary end_word c = Next c'"
  then show "((dictionary, end_word, c'), (dictionary, end_word, c))
      \<in> inv_image (less_than <*lex*> less_than <*lex*> less_than)
          (\<lambda>(dictionary, end_word, c). progress c)"
    using step_progress by simp
qed

declare run.simps [simp del]

text \<open>
  The configurations the loop passes through, in order, from a given configuration to the
  one it returns from.
\<close>

function states :: "string set \<Rightarrow> string \<Rightarrow> config \<Rightarrow> config list" where
  "states dictionary end_word c =
     c # (case step dictionary end_word c of
            Done result \<Rightarrow> []
          | Next c' \<Rightarrow> states dictionary end_word c')"
  by pat_completeness auto
termination
proof (relation "inv_image (less_than <*lex*> less_than <*lex*> less_than)
                   (\<lambda>(dictionary, end_word, c). progress c)")
  show "wf (inv_image (less_than <*lex*> less_than <*lex*> less_than)
              (\<lambda>(dictionary :: string set, end_word :: string, c). progress c))"
    by (intro wf_inv_image wf_lex_prod wf_less_than)
next
  fix dictionary end_word c c'
  assume "step dictionary end_word c = Next c'"
  then show "((dictionary, end_word, c'), (dictionary, end_word, c))
      \<in> inv_image (less_than <*lex*> less_than <*lex*> less_than)
          (\<lambda>(dictionary, end_word, c). progress c)"
    using step_progress by simp
qed

declare states.simps [simp del]

lemma states_Done: "step d e c = Done r \<Longrightarrow> states d e c = [c]"
  by (subst states.simps) simp

lemma states_Next: "step d e c = Next c' \<Longrightarrow> states d e c = c # states d e c'"
  by (subst states.simps) simp

lemma run_Done: "step d e c = Done r \<Longrightarrow> run d e c = r"
  by (subst run.simps) simp

lemma run_Next: "step d e c = Next c' \<Longrightarrow> run d e c = run d e c'"
  by (subst run.simps) simp

lemma run_invariant:
  assumes init: "I c"
    and pres: "\<And>c c'. I c \<Longrightarrow> step d e c = Next c' \<Longrightarrow> I c'"
    and fin: "\<And>c r. I c \<Longrightarrow> step d e c = Done r \<Longrightarrow> P r"
  shows "P (run d e c)"
  using init
proof (induction c rule: config_induct[where dictionary = d and end_word = e])
  case (step c)
  show ?case
  proof (cases "step d e c")
    case (Done r)
    with step.prems fin show ?thesis
      by (simp add: run_Done)
  next
    case (Next c')
    with step.prems pres have "I c'"
      by blast
    with step.IH Next show ?thesis
      by (simp add: run_Next)
  qed
qed

lemma states_invariant:
  assumes init: "I c"
    and pres: "\<And>c c'. I c \<Longrightarrow> step d e c = Next c' \<Longrightarrow> I c'"
    and mem: "x \<in> set (states d e c)"
  shows "I x"
  using init mem
proof (induction c rule: config_induct[where dictionary = d and end_word = e])
  case (step c)
  show ?case
  proof (cases "step d e c")
    case (Done r)
    with step.prems show ?thesis
      by (simp add: states_Done)
  next
    case (Next c')
    with step.prems pres have "I c'"
      by blast
    with step.IH Next step.prems show ?thesis
      by (auto simp: states_Next)
  qed
qed

lemma run_Head_Nil [simp]: "run dictionary end_word (Head visited []) = []"
  by (simp add: run.simps)

lemma run_Head_Cons [simp]:
  "run dictionary end_word (Head visited ((w, p) # queue)) =
     run dictionary end_word (Inner visited queue w p (candidates w))"
  by (subst run.simps) simp

lemma run_Inner_Nil [simp]:
  "run dictionary end_word (Inner visited queue w p []) = run dictionary end_word (Head visited queue)"
  by (subst run.simps) simp

lemma run_Inner_Cons [simp]:
  "run dictionary end_word (Inner visited queue w p (y # pending)) =
     (if y = end_word then p @ [y]
      else if y \<in> dictionary \<and> y \<notin> visited
      then run dictionary end_word
             (Inner (insert y visited) (queue @ [(y, p @ [y])]) w p pending)
      else run dictionary end_word (Inner visited queue w p pending))"
  by (subst run.simps) simp

lemma states_Head_Nil [simp]: "states d e (Head v []) = [Head v []]"
  by (subst states.simps) simp

lemma states_Head_Cons [simp]:
  "states d e (Head v ((w, p) # q)) = Head v ((w, p) # q) # states d e (Inner v q w p (candidates w))"
  by (subst states.simps) simp

lemma states_Inner_Nil [simp]:
  "states d e (Inner v q w p []) = Inner v q w p [] # states d e (Head v q)"
  by (subst states.simps) simp

lemma states_Inner_Cons [simp]:
  "states d e (Inner v q w p (y # cs)) =
     Inner v q w p (y # cs) #
     (if y = e then []
      else if y \<in> d \<and> y \<notin> v
      then states d e (Inner (insert y v) (q @ [(y, p @ [y])]) w p cs)
      else states d e (Inner v q w p cs))"
  by (subst states.simps) simp

lemma states_first: "states d e c ! 0 = c"
  by (subst states.simps) simp

lemma states_nonempty: "states d e c \<noteq> []"
  by (subst states.simps) simp

text \<open>The list of configurations is the trace of the loop: the loop returns from its last one.\<close>

lemma states_last_run: "step d e (last (states d e c)) = Done (run d e c)"
proof (induction c rule: config_induct[where dictionary = d and end_word = e])
  case (step c)
  show ?case
  proof (cases "step d e c")
    case (Done r)
    then show ?thesis
      by (simp add: states_Done run_Done)
  next
    case (Next c')
    with step.IH show ?thesis
      by (simp add: states_Next run_Next states_nonempty)
  qed
qed

subsection \<open>\<^verbatim>\<open>word_ladder\<close> (source lines 3 to 53)\<close>

text \<open>
  The configuration the loop starts from: \<^verbatim>\<open>queue = deque([(start, [start])])\<close> and
  \<^verbatim>\<open>visited = {start}\<close>.
\<close>

definition initial :: "string \<Rightarrow> config" where
  "initial start = Head {start} [(start, [start])]"

text \<open>
  The two edge cases come first; then the loop runs over the copy of the dictionary that
  also holds \<^verbatim>\<open>start\<close> (lines 24 and 25).
\<close>

definition word_ladder :: "string \<Rightarrow> string \<Rightarrow> string set \<Rightarrow> string list" where
  "word_ladder start end_word dictionary =
     (if start = end_word then [start]
      else if end_word \<notin> dictionary then []
      else run (insert start dictionary) end_word (initial start))"

text \<open>
  The configurations a call passes through: none when an edge case returns at once.
\<close>

definition word_ladder_states :: "string \<Rightarrow> string \<Rightarrow> string set \<Rightarrow> config list" where
  "word_ladder_states start end_word dictionary =
     (if start = end_word then []
      else if end_word \<notin> dictionary then []
      else states (insert start dictionary) end_word (initial start))"

subsection \<open>Single edits\<close>

text \<open>
  \<open>edit x y\<close>: the loops over \<open>x\<close> produce \<open>y\<close> as a value of \<^verbatim>\<open>new_word\<close>.
  \<open>lowercase_edit x y\<close> says the same without the loops: the two words pass
  \<^verbatim>\<open>is_one_letter_different\<close> and the letter that changed is now one of the alphabet.
\<close>

definition edit :: "string \<Rightarrow> string \<Rightarrow> bool" where
  "edit x y = (y \<in> set (candidates x))"

definition lowercase_edit :: "string \<Rightarrow> string \<Rightarrow> bool" where
  "lowercase_edit x y =
     (is_one_letter_different x y \<and> list_all (\<lambda>(c1, c2). c1 = c2 \<or> c2 \<in> set alphabet) (zip x y))"

lemma edit_iff:
  "edit x y \<longleftrightarrow> (\<exists>i < length x. \<exists>c \<in> set alphabet. c \<noteq> x ! i \<and> y = new_word_at x i c)"
  by (auto simp: edit_def candidates_def candidates_at_def)

lemma diff_count_Nil [simp]: "diff_count [] ys = 0" "diff_count xs [] = 0"
  by (simp_all add: diff_count_def)

lemma diff_count_Cons [simp]:
  "diff_count (a # xs) (b # ys) = (if a \<noteq> b then 1 else 0) + diff_count xs ys"
  by (simp add: diff_count_def)

lemma diff_count_same [simp]: "diff_count xs xs = 0"
  by (induction xs) simp_all

lemma diff_count_append:
  "length xs = length ys \<Longrightarrow> diff_count (xs @ us) (ys @ vs) = diff_count xs ys + diff_count us vs"
  by (induction xs ys rule: list_induct2) simp_all

lemma diff_count_zero:
  "length xs = length ys \<Longrightarrow> diff_count xs ys = 0 \<Longrightarrow> xs = ys"
  by (induction xs ys rule: list_induct2) (simp_all split: if_splits)

lemma new_word_at_different:
  assumes "i < length x" "c \<noteq> x ! i"
  shows "is_one_letter_different x (new_word_at x i c)"
proof -
  have x: "x = take i x @ [x ! i] @ drop (i + 1) x"
    using assms(1) by (simp add: id_take_nth_drop)
  have "diff_count x (new_word_at x i c)
      = diff_count (take i x @ [x ! i] @ drop (i + 1) x) (take i x @ [c] @ drop (i + 1) x)"
    using x by (simp add: new_word_at_def)
  also have "\<dots> = 1"
    using assms(2) by (simp add: diff_count_append)
  finally show ?thesis
    using assms(1) by (simp add: is_one_letter_different_def length_new_word_at)
qed

lemma edit_different: "edit x y \<Longrightarrow> is_one_letter_different x y"
  by (auto simp: edit_iff new_word_at_different)

lemma one_difference:
  assumes "length xs = length ys" "diff_count xs ys = 1"
  shows "\<exists>i < length xs. ys ! i \<noteq> xs ! i \<and> ys = new_word_at xs i (ys ! i)"
  using assms
proof (induction xs ys rule: list_induct2)
  case Nil
  then show ?case by simp
next
  case (Cons a xs b ys)
  show ?case
  proof (cases "a = b")
    case True
    with Cons obtain i where "i < length xs" "ys ! i \<noteq> xs ! i" "ys = new_word_at xs i (ys ! i)"
      by auto
    then have "Suc i < length (a # xs) \<and> (b # ys) ! Suc i \<noteq> (a # xs) ! Suc i
        \<and> b # ys = new_word_at (a # xs) (Suc i) ((b # ys) ! Suc i)"
      using True by (simp add: new_word_at_def)
    then show ?thesis
      by blast
  next
    case False
    with Cons have "xs = ys"
      by (simp add: diff_count_zero)
    with False have "0 < length (a # xs) \<and> (b # ys) ! 0 \<noteq> (a # xs) ! 0
        \<and> b # ys = new_word_at (a # xs) 0 ((b # ys) ! 0)"
      by (simp add: new_word_at_def)
    then show ?thesis
      by blast
  qed
qed

lemma lowercase_edit_edit:
  assumes "lowercase_edit x y"
  shows "edit x y"
proof -
  from assms have len: "length x = length y" and cnt: "diff_count x y = 1"
    and low: "\<forall>(c1, c2) \<in> set (zip x y). c1 = c2 \<or> c2 \<in> set alphabet"
    by (auto simp: lowercase_edit_def is_one_letter_different_def list_all_iff split: if_splits)
  from one_difference[OF len cnt] obtain i
    where i: "i < length x" "y ! i \<noteq> x ! i" "y = new_word_at x i (y ! i)"
    by blast
  have "(x ! i, y ! i) \<in> set (zip x y)"
    using i(1) len by (auto simp: set_zip)
  with low i(2) have "y ! i \<in> set alphabet"
    by auto
  with i show ?thesis
    unfolding edit_iff by blast
qed

lemma edit_lowercase_edit:
  assumes "edit x y"
  shows "lowercase_edit x y"
proof -
  from assms obtain i c where i: "i < length x" "c \<in> set alphabet" "c \<noteq> x ! i"
    and y: "y = new_word_at x i c"
    unfolding edit_iff by blast
  have "c1 = c2 \<or> c2 \<in> set alphabet" if "(c1, c2) \<in> set (zip x y)" for c1 c2
  proof -
    from that obtain j where j: "j < length x" "c1 = x ! j" "c2 = y ! j"
      by (auto simp: set_zip)
    show ?thesis
    proof (cases "j = i")
      case True
      with i j y show ?thesis
        by (simp add: new_word_at_def nth_append)
    next
      case False
      with i j y have "y ! j = x ! j"
        by (auto simp: new_word_at_def nth_append nth_Cons' min_def)
      with j show ?thesis by simp
    qed
  qed
  then show ?thesis
    using assms by (auto simp: lowercase_edit_def edit_different list_all_iff)
qed

subsection \<open>Every path the search builds is a ladder\<close>

text \<open>
  An entry \<open>(w, p)\<close> is good when \<open>p\<close> leads from \<^verbatim>\<open>start\<close> to \<open>w\<close> by single
  edits, without repeats, through visited words of the caller's dictionary \<open>L\<close>.
\<close>

definition good_entry :: "string \<Rightarrow> string set \<Rightarrow> string set \<Rightarrow> entry \<Rightarrow> bool" where
  "good_entry start L visited e =
     (case e of (w, p) \<Rightarrow>
        p \<noteq> [] \<and> hd p = start \<and> last p = w \<and> set p \<subseteq> visited \<and> distinct p
        \<and> set (tl p) \<subseteq> L \<and> successively edit p)"

fun pending_sound :: "config \<Rightarrow> bool" where
  "pending_sound (Head visited queue) = True"
| "pending_sound (Inner visited queue current_word path pending) =
     (set pending \<subseteq> set (candidates current_word))"

definition sound :: "string \<Rightarrow> string \<Rightarrow> string set \<Rightarrow> config \<Rightarrow> bool" where
  "sound start end_word L c =
     (start \<in> visited_of c \<and> end_word \<notin> visited_of c \<and> visited_of c \<subseteq> insert start L
      \<and> (\<forall>e \<in> set (active c). good_entry start L (visited_of c) e)
      \<and> pending_sound c)"

definition good_result :: "string \<Rightarrow> string \<Rightarrow> string set \<Rightarrow> string list \<Rightarrow> bool" where
  "good_result start end_word L r =
     (r \<noteq> [] \<longrightarrow> hd r = start \<and> last r = end_word \<and> distinct r \<and> set (tl r) \<subseteq> L
        \<and> successively edit r)"

lemma good_entry_mono:
  "good_entry start L visited e \<Longrightarrow> visited \<subseteq> visited' \<Longrightarrow> good_entry start L visited' e"
  by (auto simp: good_entry_def)

lemma good_entry_extend:
  assumes "good_entry start L visited (w, p)" "edit w y" "y \<in> L" "y \<notin> visited"
  shows "good_entry start L (insert y visited) (y, p @ [y])"
  using assms by (auto simp: good_entry_def successively_append_iff)

lemma sound_initial: "start \<noteq> end_word \<Longrightarrow> sound start end_word L (initial start)"
  by (simp add: sound_def initial_def good_entry_def)

lemma sound_step:
  assumes "sound start end_word L c" "step (insert start L) end_word c = Next c'"
  shows "sound start end_word L c'"
proof (cases c)
  case (Head visited queue)
  with assms obtain w p rest where "queue = (w, p) # rest" "c' = Inner visited rest w p (candidates w)"
    by (cases queue) auto
  with assms(1) Head show ?thesis
    by (simp add: sound_def)
next
  case (Inner visited queue w p pending)
  with assms(1) have vis: "start \<in> visited" "end_word \<notin> visited" "visited \<subseteq> insert start L"
    and ent: "\<forall>e \<in> set ((w, p) # queue). good_entry start L visited e"
    and pen: "set pending \<subseteq> set (candidates w)"
    by (simp_all add: sound_def)
  show ?thesis
  proof (cases pending)
    case Nil
    with assms(2) Inner have "c' = Head visited queue"
      by simp
    with vis ent show ?thesis
      by (simp add: sound_def)
  next
    case (Cons y rest)
    show ?thesis
    proof (cases "y \<in> insert start L \<and> y \<notin> visited")
      case True
      with assms(2) Inner Cons
      have c': "c' = Inner (insert y visited) (queue @ [(y, p @ [y])]) w p rest"
        and ne: "y \<noteq> end_word"
        by (auto split: if_splits)
      from vis True have yL: "y \<in> L"
        by auto
      from pen Cons have ed: "edit w y"
        by (simp add: edit_def)
      from ent have "good_entry start L visited (w, p)"
        by simp
      with ed yL True have new: "good_entry start L (insert y visited) (y, p @ [y])"
        by (intro good_entry_extend) simp_all
      have old: "\<forall>e \<in> set ((w, p) # queue). good_entry start L (insert y visited) e"
        using ent good_entry_mono[where visited = visited and visited' = "insert y visited"]
        by blast
      have "insert y visited \<subseteq> insert start L"
        using vis(3) True by blast
      moreover have "set rest \<subseteq> set (candidates w)"
        using pen Cons by simp
      ultimately show ?thesis
        unfolding sound_def c' using vis(1,2) ne new old by simp
    next
      case False
      with assms(2) Inner Cons have "c' = Inner visited queue w p rest"
        by (auto split: if_splits)
      with vis ent pen Cons show ?thesis
        by (simp add: sound_def)
    qed
  qed
qed

lemma sound_result:
  assumes "sound start end_word L c" "step (insert start L) end_word c = Done r" "end_word \<in> L"
  shows "good_result start end_word L r"
proof (cases c)
  case (Head visited queue)
  with assms show ?thesis
    by (cases queue) (auto simp: good_result_def)
next
  case (Inner visited queue w p pending)
  with assms obtain rest where pend: "pending = end_word # rest" and r: "r = p @ [end_word]"
    by (cases pending) (auto split: if_splits)
  from assms(1) Inner pend have "good_entry start L visited (w, p)" "edit w end_word"
    "end_word \<notin> visited"
    by (auto simp: sound_def edit_def)
  then show ?thesis
    using r assms(3) by (auto simp: good_result_def good_entry_def successively_append_iff)
qed

lemma run_good_result:
  assumes "start \<noteq> end_word" "end_word \<in> L"
  shows "good_result start end_word L (run (insert start L) end_word (initial start))"
proof (rule run_invariant[where I = "sound start end_word L"])
  show "sound start end_word L (initial start)"
    using assms(1) by (rule sound_initial)
next
  fix c c' assume "sound start end_word L c" "step (insert start L) end_word c = Next c'"
  then show "sound start end_word L c'"
    by (rule sound_step)
next
  fix c r assume "sound start end_word L c" "step (insert start L) end_word c = Done r"
  then show "good_result start end_word L r"
    using assms(2) by (rule sound_result)
qed

lemma word_ladder_good_result: "good_result start end_word L (word_ladder start end_word L)"
  using run_good_result[of start end_word L]
  by (auto simp: word_ladder_def good_result_def)

subsection \<open>The documented scenarios, evaluated\<close>

lemmas evaluate =
  word_ladder_def word_ladder_states_def initial_def candidates_def candidates_at_def
  new_word_at_def alphabet_def

lemma scenario_cat_bat: "word_ladder ''cat'' ''bat'' {''bat''} = [''cat'', ''bat'']"
  by (simp add: evaluate)

lemma scenario_cold_warm:
  "word_ladder ''cold'' ''warm'' {''cold'', ''cord'', ''word'', ''ward'', ''warm''}
     = [''cold'', ''cord'', ''word'', ''ward'', ''warm'']"
  by (simp add: evaluate)

lemma scenario_hit_cog:
  "word_ladder ''hit'' ''cog'' {''hot'', ''dot'', ''dog'', ''lot'', ''log'', ''cog''}
     = [''hit'', ''hot'', ''dot'', ''dog'', ''cog'']"
  by (simp add: evaluate)

subsection \<open>The first expansion finds an adjacent target\<close>

lemma run_finds_pending:
  "end_word \<in> set pending \<Longrightarrow> run d end_word (Inner v q w p pending) = p @ [end_word]"
  by (induction pending arbitrary: v q) auto

lemma word_ladder_adjacent:
  assumes "edit start end_word" "end_word \<in> L"
  shows "word_ladder start end_word L = [start, end_word]"
proof -
  from assms(1) have "is_one_letter_different start end_word"
    by (rule edit_different)
  then have "start \<noteq> end_word"
    by (auto simp: is_one_letter_different_def)
  moreover from assms(1) have "end_word \<in> set (candidates start)"
    by (simp add: edit_def)
  ultimately show ?thesis
    using assms(2) by (simp add: word_ladder_def initial_def run_finds_pending)
qed

subsection \<open>Words keep the length of \<^verbatim>\<open>start\<close>\<close>

definition same_length :: "string \<Rightarrow> config \<Rightarrow> bool" where
  "same_length start c = (\<forall>w \<in> words_of c. length w = length start)"

lemma same_length_initial: "same_length start (initial start)"
  by (simp add: same_length_def words_of_def initial_def)

lemma same_length_step:
  assumes "same_length start c" "step d e c = Next c'"
  shows "same_length start c'"
proof (cases c)
  case (Head visited queue)
  with assms obtain w p rest where "queue = (w, p) # rest" "c' = Inner visited rest w p (candidates w)"
    by (cases queue) auto
  with assms(1) Head show ?thesis
    by (auto simp: same_length_def words_of_def dest: length_candidates)
next
  case (Inner visited queue w p pending)
  show ?thesis
  proof (cases pending)
    case Nil
    with assms Inner show ?thesis
      by (auto simp: same_length_def words_of_def)
  next
    case (Cons y rest)
    with assms(2) Inner have "c' = Inner (insert y visited) (queue @ [(y, p @ [y])]) w p rest
        \<or> c' = Inner visited queue w p rest"
      by (auto split: if_splits)
    with Inner Cons have "words_of c' \<subseteq> words_of c"
      by (auto simp: words_of_def)
    with assms(1) show ?thesis
      unfolding same_length_def by blast
  qed
qed

lemma same_length_result:
  assumes "same_length start c" "step d e c = Done r" "length start \<noteq> length e"
  shows "r = []"
proof (cases c)
  case (Head visited queue)
  with assms show ?thesis
    by (cases queue) auto
next
  case (Inner visited queue w p pending)
  with assms(2) obtain rest where "pending = e # rest"
    by (cases pending) (auto split: if_splits)
  with assms(1,3) Inner show ?thesis
    by (auto simp: same_length_def words_of_def)
qed

lemma run_length_mismatch:
  assumes "length start \<noteq> length e"
  shows "run d e (initial start) = []"
proof (rule run_invariant[where I = "same_length start" and P = "\<lambda>r. r = []"])
  show "same_length start (initial start)"
    by (rule same_length_initial)
next
  fix c c' assume "same_length start c" "step d e c = Next c'"
  then show "same_length start c'"
    by (rule same_length_step)
next
  fix c r assume "same_length start c" "step d e c = Done r"
  then show "r = []"
    using assms by (rule same_length_result)
qed

lemma states_same_length:
  assumes "c \<in> set (states d e (initial start))"
  shows "same_length start c"
proof (rule states_invariant[where I = "same_length start"])
  show "same_length start (initial start)"
    by (rule same_length_initial)
next
  fix c c' assume "same_length start c" "step d e c = Next c'"
  then show "same_length start c'"
    by (rule same_length_step)
next
  show "c \<in> set (states d e (initial start))"
    by (rule assms)
qed

subsection \<open>The visited set along a call\<close>

lemma step_visited_grows:
  "step d e c = Next c' \<Longrightarrow> visited_of c \<subseteq> visited_of c'"
  by (induction d e c rule: step.induct) (auto split: if_splits)

lemma step_visited_enqueued:
  "step d e c = Next c' \<Longrightarrow> visited_of c' \<subseteq> visited_of c \<union> fst ` set (queue_of c')"
  by (induction d e c rule: step.induct) (auto split: if_splits)

lemma step_queue_visited:
  assumes "step d e c = Next c'" "fst ` set (active c) \<subseteq> visited_of c"
  shows "fst ` set (active c') \<subseteq> visited_of c'"
proof (cases c)
  case (Head visited queue)
  with assms(1) obtain w p rest where "queue = (w, p) # rest" "c' = Inner visited rest w p (candidates w)"
    by (cases queue) auto
  with assms(2) Head show ?thesis
    by simp
next
  case (Inner visited queue w p pending)
  show ?thesis
  proof (cases pending)
    case Nil
    with assms(1) Inner have "c' = Head visited queue"
      by simp
    with assms(2) Inner show ?thesis
      by simp
  next
    case (Cons y rest)
    with assms(1) Inner have "c' = Inner (insert y visited) (queue @ [(y, p @ [y])]) w p rest
        \<or> c' = Inner visited queue w p rest"
      by (auto split: if_splits)
    then show ?thesis
    proof
      assume "c' = Inner (insert y visited) (queue @ [(y, p @ [y])]) w p rest"
      with assms(2) Inner show ?thesis
        by (simp add: subset_insertI2)
    next
      assume "c' = Inner visited queue w p rest"
      with assms(2) Inner show ?thesis
        by simp
    qed
  qed
qed

lemma states_visited_grows:
  "x \<in> set (states d e c) \<Longrightarrow> visited_of c \<subseteq> visited_of x"
proof (induction c rule: config_induct[where dictionary = d and end_word = e])
  case (step c)
  show ?case
  proof (cases "step d e c")
    case (Done r)
    with step.prems show ?thesis
      by (simp add: states_Done)
  next
    case (Next c')
    with step.prems have "x = c \<or> x \<in> set (states d e c')"
      by (simp add: states_Next)
    then show ?thesis
    proof
      assume "x = c" then show ?thesis by simp
    next
      assume "x \<in> set (states d e c')"
      with step.IH Next have "visited_of c' \<subseteq> visited_of x"
        by blast
      with step_visited_grows[OF Next] show ?thesis
        by blast
    qed
  qed
qed

lemma states_visited_sorted:
  "sorted_wrt (\<lambda>c c'. visited_of c \<subseteq> visited_of c') (states d e c)"
proof (induction c rule: config_induct[where dictionary = d and end_word = e])
  case (step c)
  show ?case
  proof (cases "step d e c")
    case (Done r)
    then show ?thesis
      by (simp add: states_Done)
  next
    case (Next c')
    have "\<forall>x \<in> set (states d e c'). visited_of c \<subseteq> visited_of x"
      using states_visited_grows[of _ d e c'] step_visited_grows[OF Next] by blast
    with step.IH Next show ?thesis
      by (simp add: states_Next)
  qed
qed

lemma states_visited_enqueued:
  assumes "fst ` set (active c) \<subseteq> visited_of c" "n < length (states d e c)"
  shows "t \<in> visited_of (states d e c ! n)
     \<longleftrightarrow> t \<in> visited_of c \<or> (\<exists>i \<le> n. t \<in> fst ` set (queue_of (states d e c ! i)))"
  using assms
proof (induction c arbitrary: n rule: config_induct[where dictionary = d and end_word = e])
  case (step c)
  have qa: "fst ` set (queue_of c) \<subseteq> fst ` set (active c)"
    by (cases c) auto
  show ?case
  proof (cases n)
    case 0
    have "t \<in> fst ` set (queue_of c) \<Longrightarrow> t \<in> visited_of c"
      using step.prems(1) qa by blast
    with 0 show ?thesis
      by (auto simp: states_first)
  next
    case (Suc m)
    show ?thesis
    proof (cases "step d e c")
      case (Done r)
      with step.prems Suc show ?thesis
        by (simp add: states_Done)
    next
      case (Next c')
      have st: "states d e c = c # states d e c'"
        using Next by (rule states_Next)
      have m: "m < length (states d e c')"
        using step.prems(2) Suc st by simp
      have inv': "fst ` set (active c') \<subseteq> visited_of c'"
        using Next step.prems(1) by (rule step_queue_visited)
      have IH: "t \<in> visited_of (states d e c' ! m)
          \<longleftrightarrow> t \<in> visited_of c' \<or> (\<exists>i \<le> m. t \<in> fst ` set (queue_of (states d e c' ! i)))"
        using Next inv' m by (rule step.IH)
      have nth: "states d e c ! Suc i = states d e c' ! i" for i
        by (simp add: st)
      have grow: "visited_of c \<subseteq> visited_of c'"
        using Next by (rule step_visited_grows)
      have enq: "visited_of c' \<subseteq> visited_of c \<union> fst ` set (queue_of (states d e c' ! 0))"
        using step_visited_enqueued[OF Next] by (simp add: states_first)
      show ?thesis
      proof
        assume "t \<in> visited_of (states d e c ! n)"
        with Suc nth IH have "t \<in> visited_of c' \<or> (\<exists>i \<le> m. t \<in> fst ` set (queue_of (states d e c' ! i)))"
          by simp
        then show "t \<in> visited_of c \<or> (\<exists>i \<le> n. t \<in> fst ` set (queue_of (states d e c ! i)))"
        proof
          assume "t \<in> visited_of c'"
          with enq have "t \<in> visited_of c \<or> t \<in> fst ` set (queue_of (states d e c ! Suc 0))"
            using nth[of 0] by auto
          then show ?thesis
            using Suc by (metis Suc_le_mono zero_le)
        next
          assume "\<exists>i \<le> m. t \<in> fst ` set (queue_of (states d e c' ! i))"
          then obtain i where "i \<le> m" "t \<in> fst ` set (queue_of (states d e c ! Suc i))"
            using nth by auto
          then show ?thesis
            using Suc by (metis Suc_le_mono)
        qed
      next
        assume "t \<in> visited_of c \<or> (\<exists>i \<le> n. t \<in> fst ` set (queue_of (states d e c ! i)))"
        then have "t \<in> visited_of c' \<or> (\<exists>i \<le> m. t \<in> fst ` set (queue_of (states d e c' ! i)))"
        proof
          assume "t \<in> visited_of c"
          with grow show ?thesis by blast
        next
          assume "\<exists>i \<le> n. t \<in> fst ` set (queue_of (states d e c ! i))"
          then obtain i where i: "i \<le> n" "t \<in> fst ` set (queue_of (states d e c ! i))"
            by blast
          show ?thesis
          proof (cases i)
            case 0
            with i have "t \<in> fst ` set (queue_of c)"
              by (simp add: states_first)
            with qa step.prems(1) grow show ?thesis
              by blast
          next
            case (Suc j)
            with i \<open>n = Suc m\<close> nth have "j \<le> m" "t \<in> fst ` set (queue_of (states d e c' ! j))"
              by auto
            then show ?thesis by blast
          qed
        qed
        with Suc nth IH show "t \<in> visited_of (states d e c ! n)"
          by simp
      qed
    qed
  qed
qed

lemma states_sound:
  assumes "start \<noteq> end_word" "c \<in> set (states (insert start L) end_word (initial start))"
  shows "sound start end_word L c"
proof (rule states_invariant[where I = "sound start end_word L"])
  show "sound start end_word L (initial start)"
    using assms(1) by (rule sound_initial)
next
  fix c c' assume "sound start end_word L c" "step (insert start L) end_word c = Next c'"
  then show "sound start end_word L c'"
    by (rule sound_step)
next
  show "c \<in> set (states (insert start L) end_word (initial start))"
    by (rule assms(2))
qed

lemma card_visited_bound:
  assumes "visited \<subseteq> insert start L" "finite L"
  shows "card visited \<le> card L + 1"
proof -
  have "card visited \<le> card (insert start L)"
    using assms by (intro card_mono) simp_all
  also have "\<dots> \<le> card L + 1"
    using assms(2) by (simp add: card_insert_if)
  finally show ?thesis .
qed

subsection \<open>The caller's set object (source lines 20 to 25)\<close>

text \<open>
  Python passes the dictionary by reference. To tell the caller's set from the call's own,
  set objects live in a store, a list indexed by address. \<^verbatim>\<open>set(dictionary)\<close> allocates a
  new object holding the same elements; \<^verbatim>\<open>dictionary.add(start)\<close> updates the object the
  local name then refers to. The loop only reads that object; \<^verbatim>\<open>visited\<close> and the deque
  are never shared, so they stay values of the configuration.
\<close>

type_synonym store = "string set list"

definition set_copy :: "store \<Rightarrow> nat \<Rightarrow> nat \<times> store" where
  "set_copy h a = (length h, h @ [h ! a])"

definition set_add :: "store \<Rightarrow> nat \<Rightarrow> string \<Rightarrow> store" where
  "set_add h a x = h[a := insert x (h ! a)]"

text \<open>
  The call on a store: \<open>dictionary\<close> is the address the caller passes, which refers to an
  object of the store. The result is the returned list and the store the caller finds.
\<close>

definition word_ladder_store :: "store \<Rightarrow> string \<Rightarrow> string \<Rightarrow> nat \<Rightarrow> string list \<times> store" where
  "word_ladder_store h start end_word dictionary =
     (if start = end_word then ([start], h)
      else if end_word \<notin> h ! dictionary then ([], h)
      else let (dictionary', h') = set_copy h dictionary;
               h'' = set_add h' dictionary' start
           in (run (h'' ! dictionary') end_word (initial start), h''))"

lemma word_ladder_store_result:
  "dictionary < length h \<Longrightarrow>
     fst (word_ladder_store h start end_word dictionary) = word_ladder start end_word (h ! dictionary)"
  by (simp add: word_ladder_store_def word_ladder_def set_copy_def set_add_def nth_append)

lemma word_ladder_store_frame:
  "take (length h) (snd (word_ladder_store h start end_word dictionary)) = h"
  by (simp add: word_ladder_store_def set_copy_def set_add_def)

subsection \<open>Breadth-first order: the first path found is a shortest one\<close>

text \<open>
  A ladder from \<^verbatim>\<open>start\<close> through \<open>D\<close>: a non-empty list that begins with
  \<^verbatim>\<open>start\<close>, each further element produced from its predecessor by the loops and a
  member of \<open>D\<close>.
\<close>

definition ladder :: "string \<Rightarrow> string set \<Rightarrow> string list \<Rightarrow> bool" where
  "ladder start D q = (q \<noteq> [] \<and> hd q = start \<and> successively edit q \<and> set (tl q) \<subseteq> D)"

text \<open>The words whose expansion is complete.\<close>

definition expanded :: "config \<Rightarrow> string set" where
  "expanded c = visited_of c - fst ` set (active c)"

text \<open>Path lengths along the active entries ascend, and by at most one in total.\<close>

definition level_order :: "entry list \<Rightarrow> bool" where
  "level_order es =
     (sorted (map (length \<circ> snd) es)
      \<and> (\<forall>en \<in> set es. length (snd en) \<le> Suc (length (snd (hd es)))))"

text \<open>No expanded word has the target or an unvisited member of \<open>D\<close> among its candidates.\<close>

definition closed :: "string set \<Rightarrow> string \<Rightarrow> config \<Rightarrow> bool" where
  "closed D end_word c =
     (\<forall>x \<in> expanded c. \<forall>y \<in> set (candidates x). y \<noteq> end_word \<and> (y \<in> D \<longrightarrow> y \<in> visited_of c))"

text \<open>The same for the candidates of the current word that were already tried.\<close>

fun scanned :: "string set \<Rightarrow> string \<Rightarrow> config \<Rightarrow> bool" where
  "scanned D end_word (Head visited queue) = True"
| "scanned D end_word (Inner visited queue current_word path pending) =
     (\<exists>tried. candidates current_word = tried @ pending
        \<and> (\<forall>y \<in> set tried. y \<noteq> end_word \<and> (y \<in> D \<longrightarrow> y \<in> visited)))"

text \<open>The path stored with an active word is as short as any ladder to that word.\<close>

definition shortest :: "string \<Rightarrow> string set \<Rightarrow> config \<Rightarrow> bool" where
  "shortest start D c =
     (\<forall>en \<in> set (active c). \<forall>q. ladder start D q \<longrightarrow> last q = fst en \<longrightarrow> length (snd en) \<le> length q)"

definition bfs_inv :: "string \<Rightarrow> string \<Rightarrow> string set \<Rightarrow> config \<Rightarrow> bool" where
  "bfs_inv start end_word D c =
     (start \<in> visited_of c \<and> distinct (map fst (active c)) \<and> fst ` set (active c) \<subseteq> visited_of c
      \<and> level_order (active c) \<and> closed D end_word c \<and> scanned D end_word c \<and> shortest start D c)"

lemma ladder_single: "ladder start D [x] \<longleftrightarrow> x = start"
  by (auto simp: ladder_def)

lemma ladder_snoc:
  "q \<noteq> [] \<Longrightarrow> ladder start D (q @ [y]) \<longleftrightarrow> ladder start D q \<and> edit (last q) y \<and> y \<in> D"
  by (auto simp: ladder_def successively_append_iff)

lemma level_order_tail: "level_order (en # es) \<Longrightarrow> level_order es"
  by (cases es) (auto simp: level_order_def)

lemma level_order_head: "level_order (en # es) \<Longrightarrow> x \<in> set (en # es) \<Longrightarrow> length (snd en) \<le> length (snd x)"
  by (auto simp: level_order_def)

lemma level_order_enqueue:
  "level_order ((w, p) # es) \<Longrightarrow> level_order ((w, p) # es @ [(y, p @ [y])])"
  by (auto simp: level_order_def sorted_append)

text \<open>
  Every ladder ends in a visited word, unless it is longer than the path of some active
  entry.
\<close>

lemma frontier:
  assumes "start \<in> visited_of c" "closed D end_word c" "shortest start D c"
    and "ladder start D q"
  shows "last q \<in> visited_of c \<or> (\<exists>en \<in> set (active c). length (snd en) < length q)"
  using assms(4)
proof (induction q rule: rev_induct)
  case Nil
  then show ?case
    by (simp add: ladder_def)
next
  case (snoc y q)
  show ?case
  proof (cases "q = []")
    case True
    with snoc.prems assms(1) show ?thesis
      by (simp add: ladder_single)
  next
    case False
    with snoc.prems have lq: "ladder start D q" and ed: "edit (last q) y" and yD: "y \<in> D"
      by (simp_all add: ladder_snoc)
    have "last q \<in> visited_of c \<Longrightarrow> last q \<in> expanded c \<or> (\<exists>en \<in> set (active c). fst en = last q)"
      by (force simp: expanded_def)
    with snoc.IH[OF lq]
    consider (entry) en where "en \<in> set (active c)" "length (snd en) < length q"
      | (exp) "last q \<in> expanded c"
      | (act) en where "en \<in> set (active c)" "fst en = last q"
      by blast
    then show ?thesis
    proof cases
      case entry
      then have "length (snd en) < length (q @ [y])"
        by simp
      with entry(1) show ?thesis
        by blast
    next
      case exp
      with assms(2) ed yD have "y \<in> visited_of c"
        by (auto simp: closed_def edit_def)
      then show ?thesis
        by simp
    next
      case act
      with assms(3) lq have "length (snd en) \<le> length q"
        by (auto simp: shortest_def)
      then have "length (snd en) < length (q @ [y])"
        by simp
      with act(1) show ?thesis
        by blast
    qed
  qed
qed

lemma bfs_inv_initial: "bfs_inv start end_word D (initial start)"
  by (auto simp: bfs_inv_def initial_def level_order_def closed_def expanded_def shortest_def
      ladder_def Suc_le_eq)

lemma bfs_inv_dequeue:
  assumes "bfs_inv start end_word D (Head visited ((w, p) # queue))"
  shows "bfs_inv start end_word D (Inner visited queue w p (candidates w))"
proof -
  have "scanned D end_word (Inner visited queue w p (candidates w))"
    by simp
  with assms show ?thesis
    by (simp add: bfs_inv_def closed_def expanded_def shortest_def)
qed

lemma bfs_inv_finish:
  assumes inv: "bfs_inv start end_word D (Inner visited queue w p [])"
  shows "bfs_inv start end_word D (Head visited queue)"
proof -
  let ?c = "Inner visited queue w p []"
  from inv have sv: "start \<in> visited"
    and dist: "distinct (map fst ((w, p) # queue))"
    and sub: "fst ` set ((w, p) # queue) \<subseteq> visited"
    and lev: "level_order ((w, p) # queue)"
    and clo: "closed D end_word ?c"
    and sca: "scanned D end_word ?c"
    and sho: "shortest start D ?c"
    by (simp_all add: bfs_inv_def)
  from sca have tr: "\<forall>y \<in> set (candidates w). y \<noteq> end_word \<and> (y \<in> D \<longrightarrow> y \<in> visited)"
    by simp
  have "closed D end_word (Head visited queue)"
    unfolding closed_def
  proof (intro ballI)
    fix x y assume x: "x \<in> expanded (Head visited queue)" and y: "y \<in> set (candidates x)"
    show "y \<noteq> end_word \<and> (y \<in> D \<longrightarrow> y \<in> visited_of (Head visited queue))"
    proof (cases "x = w")
      case True
      with y tr show ?thesis
        by simp
    next
      case False
      with x have "x \<in> expanded ?c"
        by (simp add: expanded_def)
      with clo y have "y \<noteq> end_word \<and> (y \<in> D \<longrightarrow> y \<in> visited_of ?c)"
        unfolding closed_def by blast
      then show ?thesis
        by simp
    qed
  qed
  moreover have "shortest start D (Head visited queue)"
    using sho by (simp add: shortest_def)
  moreover have "level_order queue"
    using lev by (rule level_order_tail)
  moreover have "distinct (map fst queue)" "fst ` set queue \<subseteq> visited"
    using dist sub by simp_all
  ultimately show ?thesis
    using sv by (simp add: bfs_inv_def)
qed

lemma scanned_advance:
  assumes "scanned D end_word (Inner visited queue w p (y # rest))"
    and "y \<noteq> end_word" "y \<in> D \<longrightarrow> y \<in> visited'" "visited \<subseteq> visited'"
  shows "scanned D end_word (Inner visited' queue' w p rest)"
proof -
  from assms(1) obtain tried where tried: "candidates w = tried @ y # rest"
    and tr: "\<forall>z \<in> set tried. z \<noteq> end_word \<and> (z \<in> D \<longrightarrow> z \<in> visited)"
    by auto
  have "candidates w = (tried @ [y]) @ rest"
    using tried by simp
  moreover have "\<forall>z \<in> set (tried @ [y]). z \<noteq> end_word \<and> (z \<in> D \<longrightarrow> z \<in> visited')"
    using tr assms(2-4) by auto
  ultimately show ?thesis
    unfolding scanned.simps by blast
qed

lemma bfs_inv_skip:
  assumes inv: "bfs_inv start end_word D (Inner visited queue w p (y # rest))"
    and ne: "y \<noteq> end_word" and no: "\<not> (y \<in> D \<and> y \<notin> visited)"
  shows "bfs_inv start end_word D (Inner visited queue w p rest)"
proof -
  from inv have sca: "scanned D end_word (Inner visited queue w p (y # rest))"
    by (simp add: bfs_inv_def)
  have "scanned D end_word (Inner visited queue w p rest)"
    using sca ne by (rule scanned_advance) (use no in auto)
  with inv show ?thesis
    by (simp add: bfs_inv_def closed_def expanded_def shortest_def)
qed

lemma bfs_inv_enqueue:
  assumes inv: "bfs_inv start end_word D (Inner visited queue w p (y # rest))"
    and ne: "y \<noteq> end_word" and yD: "y \<in> D" and yv: "y \<notin> visited"
  shows "bfs_inv start end_word D
           (Inner (insert y visited) (queue @ [(y, p @ [y])]) w p rest)"
proof -
  let ?c = "Inner visited queue w p (y # rest)"
  let ?c' = "Inner (insert y visited) (queue @ [(y, p @ [y])]) w p rest"
  from inv have sv: "start \<in> visited"
    and dist: "distinct (map fst ((w, p) # queue))"
    and sub: "fst ` set ((w, p) # queue) \<subseteq> visited"
    and lev: "level_order ((w, p) # queue)"
    and clo: "closed D end_word ?c"
    and sca: "scanned D end_word ?c"
    and sho: "shortest start D ?c"
    by (simp_all add: bfs_inv_def)
  have ynew: "y \<notin> fst ` set ((w, p) # queue)"
    using sub yv by blast
  have ex: "expanded ?c' = expanded ?c"
    using yv by (auto simp: expanded_def)
  have clo': "closed D end_word ?c'"
    unfolding closed_def
  proof (intro ballI)
    fix x z assume "x \<in> expanded ?c'" "z \<in> set (candidates x)"
    with ex clo have "z \<noteq> end_word \<and> (z \<in> D \<longrightarrow> z \<in> visited_of ?c)"
      unfolding closed_def by blast
    then show "z \<noteq> end_word \<and> (z \<in> D \<longrightarrow> z \<in> visited_of ?c')"
      by simp
  qed
  have sca': "scanned D end_word ?c'"
    using sca ne by (rule scanned_advance) auto
  have sho': "shortest start D ?c'"
    unfolding shortest_def
  proof (intro ballI allI impI)
    fix en q
    assume en: "en \<in> set (active ?c')" and lq: "ladder start D q" and last: "last q = fst en"
    show "length (snd en) \<le> length q"
    proof (cases "en = (y, p @ [y])")
      case True
      have "start \<in> visited_of ?c"
        using sv by simp
      from frontier[OF this clo sho lq]
      have "last q \<in> visited \<or> (\<exists>x \<in> set ((w, p) # queue). length (snd x) < length q)"
        by simp
      moreover have "last q \<notin> visited"
        using last True yv by simp
      ultimately obtain x where x: "x \<in> set ((w, p) # queue)" "length (snd x) < length q"
        by blast
      from level_order_head[OF lev x(1)] have "length p \<le> length (snd x)"
        by simp
      with x(2) True show ?thesis
        by simp
    next
      case False
      with en have "en \<in> set (active ?c)"
        by auto
      with sho lq last show ?thesis
        unfolding shortest_def by blast
    qed
  qed
  have lev': "level_order ((w, p) # queue @ [(y, p @ [y])])"
    using lev by (rule level_order_enqueue)
  have dist': "distinct (map fst ((w, p) # queue @ [(y, p @ [y])]))"
    using dist ynew by auto
  have sub': "fst ` set ((w, p) # queue @ [(y, p @ [y])]) \<subseteq> insert y visited"
    using sub by auto
  have sv': "start \<in> insert y visited"
    using sv by simp
  show ?thesis
    unfolding bfs_inv_def using sv' dist' sub' lev' clo' sca' sho' by simp
qed

lemma bfs_inv_step:
  assumes inv: "bfs_inv start end_word D c" and st: "step D end_word c = Next c'"
  shows "bfs_inv start end_word D c'"
proof (cases c)
  case (Head visited queue)
  with st obtain w p rest where q: "queue = (w, p) # rest"
    and c': "c' = Inner visited rest w p (candidates w)"
    by (cases queue) auto
  from inv Head q have "bfs_inv start end_word D (Head visited ((w, p) # rest))"
    by simp
  then show ?thesis
    unfolding c' by (rule bfs_inv_dequeue)
next
  case (Inner visited queue w p pending)
  show ?thesis
  proof (cases pending)
    case Nil
    with st Inner have c': "c' = Head visited queue"
      by simp
    from inv Inner Nil have "bfs_inv start end_word D (Inner visited queue w p [])"
      by simp
    then show ?thesis
      unfolding c' by (rule bfs_inv_finish)
  next
    case (Cons y rest)
    from inv Inner Cons have inv': "bfs_inv start end_word D (Inner visited queue w p (y # rest))"
      by simp
    from st Inner Cons have ne: "y \<noteq> end_word"
      by (auto split: if_splits)
    show ?thesis
    proof (cases "y \<in> D \<and> y \<notin> visited")
      case True
      with st Inner Cons ne
      have c': "c' = Inner (insert y visited) (queue @ [(y, p @ [y])]) w p rest"
        by simp
      from True have "y \<in> D" "y \<notin> visited"
        by simp_all
      with inv' ne show ?thesis
        unfolding c' by (rule bfs_inv_enqueue)
    next
      case False
      with st Inner Cons ne have c': "c' = Inner visited queue w p rest"
        by auto
      from inv' ne False show ?thesis
        unfolding c' by (rule bfs_inv_skip)
    qed
  qed
qed

lemma bfs_inv_result:
  assumes inv: "bfs_inv start end_word D c" and st: "step D end_word c = Done r"
    and ne: "start \<noteq> end_word" and r: "r \<noteq> []"
    and lq: "ladder start D q" and last: "last q = end_word"
  shows "length r \<le> length q"
proof (cases c)
  case (Head visited queue)
  with st r show ?thesis
    by (cases queue) auto
next
  case (Inner visited queue w p pending)
  with st obtain rest where pend: "pending = end_word # rest" and res: "r = p @ [end_word]"
    by (cases pending) (auto split: if_splits)
  from inv Inner have sv: "start \<in> visited_of c"
    and lev: "level_order ((w, p) # queue)"
    and clo: "closed D end_word c"
    and sho: "shortest start D c"
    by (simp_all add: bfs_inv_def)
  from lq have "q \<noteq> []"
    by (simp add: ladder_def)
  then obtain q' where q: "q = q' @ [end_word]"
    using last by (metis append_butlast_last_id)
  have "q' \<noteq> []"
  proof
    assume "q' = []"
    with q lq have "end_word = start"
      by (simp add: ladder_single)
    with ne show False
      by simp
  qed
  with lq q have lq': "ladder start D q'" and ed: "edit (last q') end_word"
    by (simp_all add: ladder_snoc)
  have "last q' \<notin> expanded c"
    using clo ed by (auto simp: closed_def edit_def)
  then have "last q' \<in> visited_of c \<Longrightarrow> \<exists>en \<in> set (active c). fst en = last q'"
    by (force simp: expanded_def)
  with frontier[OF sv clo sho lq']
  consider (entry) en where "en \<in> set (active c)" "length (snd en) < length q'"
    | (act) en where "en \<in> set (active c)" "fst en = last q'"
    by blast
  then have "\<exists>en \<in> set ((w, p) # queue). length (snd en) \<le> length q'"
  proof cases
    case entry
    with Inner show ?thesis
      by force
  next
    case act
    with sho lq' have "length (snd en) \<le> length q'"
      by (auto simp: shortest_def)
    with act(1) Inner show ?thesis
      by force
  qed
  then obtain en where en: "en \<in> set ((w, p) # queue)" "length (snd en) \<le> length q'"
    by blast
  from level_order_head[OF lev en(1)] have "length p \<le> length (snd en)"
    by simp
  with en(2) res q show ?thesis
    by simp
qed

lemma run_shortest:
  assumes "start \<noteq> end_word" "ladder start D q" "last q = end_word"
    and "run D end_word (initial start) \<noteq> []"
  shows "length (run D end_word (initial start)) \<le> length q"
proof -
  have "run D end_word (initial start) \<noteq> [] \<longrightarrow> length (run D end_word (initial start)) \<le> length q"
  proof (rule run_invariant[where I = "bfs_inv start end_word D"
        and P = "\<lambda>r. r \<noteq> [] \<longrightarrow> length r \<le> length q"])
    show "bfs_inv start end_word D (initial start)"
      by (rule bfs_inv_initial)
  next
    fix c c' assume "bfs_inv start end_word D c" "step D end_word c = Next c'"
    then show "bfs_inv start end_word D c'"
      by (rule bfs_inv_step)
  next
    fix c r assume "bfs_inv start end_word D c" "step D end_word c = Done r"
    then show "r \<noteq> [] \<longrightarrow> length r \<le> length q"
      using assms(1-3) bfs_inv_result by blast
  qed
  with assms(4) show ?thesis
    by simp
qed

subsection \<open>Transformation sequences\<close>

text \<open>
  A transformation sequence from \<^verbatim>\<open>start\<close> to \<^verbatim>\<open>end\<close> through \<open>L\<close>, for a given
  notion of adjacent tokens: a non-empty list from \<^verbatim>\<open>start\<close> to \<^verbatim>\<open>end\<close>, consecutive
  elements adjacent, every element after the first in \<open>L\<close>.
\<close>

definition transformation ::
  "(string \<Rightarrow> string \<Rightarrow> bool) \<Rightarrow> string \<Rightarrow> string \<Rightarrow> string set \<Rightarrow> string list \<Rightarrow> bool" where
  "transformation adjacent start end_word L q =
     (q \<noteq> [] \<and> hd q = start \<and> last q = end_word \<and> successively adjacent q \<and> set (tl q) \<subseteq> L)"

lemma transformation_ladder:
  assumes "transformation lowercase_edit start end_word L q"
  shows "ladder start (insert start L) q"
proof -
  from assms have "successively lowercase_edit q"
    by (simp add: transformation_def)
  then have "successively edit q"
    by (rule successively_mono) (rule lowercase_edit_edit)
  with assms show ?thesis
    by (auto simp: transformation_def ladder_def)
qed

section \<open>The claims\<close>

text \<open>
  C2 (trivial success). For every token \<open>t\<close> and every dictionary \<open>L\<close>, whether or not
  \<open>t\<close> is in \<open>L\<close>, \<^verbatim>\<open>word_ladder(t, t, L)\<close> returns the one-element list \<open>[t]\<close>.
\<close>

theorem trivial_success: "word_ladder t t L = [t]"
  by (simp add: word_ladder_def)

theorem trivial_success_witness:
  "word_ladder ''cat'' ''cat'' {''bat'', ''hat''} = [''cat'']"
  using trivial_success [of "''cat''" "{''bat'', ''hat''}"] by simp

text \<open>
  C3 (unreachable target, fast path). When \<^verbatim>\<open>start\<close> differs from \<^verbatim>\<open>end\<close> and
  \<^verbatim>\<open>end\<close> is not in \<open>L\<close>, the call returns the empty list, and it does so without
  entering the search loop: the call passes through no configuration of the loop.
\<close>

theorem unreachable_fast_path:
  assumes "start \<noteq> end_word" "end_word \<notin> L"
  shows "word_ladder start end_word L = [] \<and> word_ladder_states start end_word L = []"
  using assms by (simp add: word_ladder_def word_ladder_states_def)

theorem unreachable_fast_path_witness:
  "''hit'' \<noteq> ''cog'' \<and> ''cog'' \<notin> {''hot'', ''dot'', ''dog'', ''lot'', ''log''}
   \<and> word_ladder ''hit'' ''cog'' {''hot'', ''dot'', ''dog'', ''lot'', ''log''} = []
   \<and> word_ladder_states ''hit'' ''cog'' {''hot'', ''dot'', ''dog'', ''lot'', ''log''} = []"
proof -
  have h1: "''hit'' \<noteq> ''cog''" by simp
  have h2: "''cog'' \<notin> {''hot'', ''dot'', ''dog'', ''lot'', ''log''}" by simp
  show ?thesis
    using h1 h2 unreachable_fast_path [OF h1 h2] by simp
qed

text \<open>
  C6 (edge validity). In every non-empty result, any two consecutive elements have the
  same length and differ in exactly one position.
\<close>

theorem edge_validity:
  assumes "word_ladder start end_word L \<noteq> []" "Suc i < length (word_ladder start end_word L)"
  shows "length (word_ladder start end_word L ! i) = length (word_ladder start end_word L ! Suc i)
         \<and> diff_count (word_ladder start end_word L ! i) (word_ladder start end_word L ! Suc i) = 1"
proof -
  have "successively edit (word_ladder start end_word L)"
    using word_ladder_good_result[of start end_word L] assms(1) by (simp add: good_result_def)
  with assms(2) have "edit (word_ladder start end_word L ! i) (word_ladder start end_word L ! Suc i)"
    by (simp add: successively_conv_nth)
  then have "is_one_letter_different (word_ladder start end_word L ! i) (word_ladder start end_word L ! Suc i)"
    by (rule edit_different)
  then show ?thesis
    by (simp add: is_one_letter_different_def split: if_splits)
qed

theorem edge_validity_witness:
  "word_ladder ''cold'' ''warm'' {''cold'', ''cord'', ''word'', ''ward'', ''warm''} \<noteq> []
   \<and> Suc 2 < length (word_ladder ''cold'' ''warm'' {''cold'', ''cord'', ''word'', ''ward'', ''warm''})
   \<and> length ''word'' = length ''ward'' \<and> diff_count ''word'' ''ward'' = 1"
proof -
  let ?r = "word_ladder ''cold'' ''warm'' {''cold'', ''cord'', ''word'', ''ward'', ''warm''}"
  have h1: "?r \<noteq> []" by (simp add: scenario_cold_warm)
  have h2: "Suc 2 < length ?r" by (simp add: scenario_cold_warm)
  show ?thesis
    using h1 h2 edge_validity [OF h1 h2] by (simp add: scenario_cold_warm)
qed

text \<open>
  C7 (dictionary membership). In every non-empty result, every element after the first is a
  member of the caller's dictionary \<open>L\<close> itself, not only of the copy that also holds
  \<^verbatim>\<open>start\<close>.
\<close>

theorem result_in_dictionary:
  assumes "word_ladder start end_word L \<noteq> []"
  shows "set (tl (word_ladder start end_word L)) \<subseteq> L"
  using word_ladder_good_result[of start end_word L] assms by (simp add: good_result_def)

theorem result_in_dictionary_witness:
  "word_ladder ''hit'' ''cog'' {''hot'', ''dot'', ''dog'', ''lot'', ''log'', ''cog''} \<noteq> []
   \<and> set [''hot'', ''dot'', ''dog'', ''cog'']
       \<subseteq> {''hot'', ''dot'', ''dog'', ''lot'', ''log'', ''cog''}
   \<and> ''hit'' \<notin> {''hot'', ''dot'', ''dog'', ''lot'', ''log'', ''cog''}"
proof -
  let ?r = "word_ladder ''hit'' ''cog'' {''hot'', ''dot'', ''dog'', ''lot'', ''log'', ''cog''}"
  have h: "?r \<noteq> []" by (simp add: scenario_hit_cog)
  show ?thesis
    using h result_in_dictionary [OF h] by (simp add: scenario_hit_cog)
qed

text \<open>
  C10 (endpoints, no repeats). Every non-empty result starts with \<^verbatim>\<open>start\<close>, ends with
  \<^verbatim>\<open>end\<close>, and holds no token twice.
\<close>

theorem result_endpoints_distinct:
  assumes "word_ladder start end_word L \<noteq> []"
  shows "hd (word_ladder start end_word L) = start
         \<and> last (word_ladder start end_word L) = end_word
         \<and> distinct (word_ladder start end_word L)"
  using word_ladder_good_result[of start end_word L] assms by (simp add: good_result_def)

theorem result_endpoints_distinct_witness:
  "word_ladder ''cat'' ''bat'' {''bat''} \<noteq> []
   \<and> hd (word_ladder ''cat'' ''bat'' {''bat''}) = ''cat''
   \<and> last (word_ladder ''cat'' ''bat'' {''bat''}) = ''bat''
   \<and> distinct (word_ladder ''cat'' ''bat'' {''bat''})"
proof -
  have h: "word_ladder ''cat'' ''bat'' {''bat''} \<noteq> []" by (simp add: scenario_cat_bat)
  show ?thesis
    using h result_endpoints_distinct [OF h] by simp
qed

text \<open>
  C4 (adjacency over any alphabet). As stated the claim fails: the loops substitute only the
  26 lowercase letters, so a target whose differing letter is not one of them is never
  produced. What holds: when \<^verbatim>\<open>start\<close> and \<^verbatim>\<open>end\<close> have equal length and differ in
  exactly one position, the letter of \<^verbatim>\<open>end\<close> at that position is a lowercase letter
  \<open>a\<close> to \<open>z\<close>, and \<^verbatim>\<open>end\<close> is in \<open>L\<close>, the call returns \<open>[start, end]\<close>; the other
  letters of the two tokens may be any characters.
\<close>

theorem adjacent_target_found:
  assumes "is_one_letter_different start end_word"
    and "list_all (\<lambda>(c1, c2). c1 = c2 \<or> c2 \<in> set alphabet) (zip start end_word)"
    and "end_word \<in> L"
  shows "word_ladder start end_word L = [start, end_word]"
proof -
  from assms(1,2) have "lowercase_edit start end_word"
    by (simp add: lowercase_edit_def)
  then have "edit start end_word"
    by (rule lowercase_edit_edit)
  then show ?thesis
    using assms(3) by (rule word_ladder_adjacent)
qed

theorem adjacent_target_found_witness:
  "is_one_letter_different ''CAt'' ''CAr''
   \<and> list_all (\<lambda>(c1, c2). c1 = c2 \<or> c2 \<in> set alphabet) (zip ''CAt'' ''CAr'')
   \<and> ''CAr'' \<in> {''CAr''}
   \<and> word_ladder ''CAt'' ''CAr'' {''CAr''} = [''CAt'', ''CAr'']"
proof -
  have h1: "is_one_letter_different ''CAt'' ''CAr''"
    by (simp add: is_one_letter_different_def)
  have h2: "list_all (\<lambda>(c1, c2). c1 = c2 \<or> c2 \<in> set alphabet) (zip ''CAt'' ''CAr'')"
    by (simp add: alphabet_def)
  have h3: "''CAr'' \<in> {''CAr''}"
    by simp
  show ?thesis
    using h1 h2 h3 adjacent_target_found [OF h1 h2 h3] by simp
qed

theorem adjacent_uppercase_counterexample:
  "is_one_letter_different ''CAT'' ''BAT'' \<and> ''BAT'' \<in> {''BAT''}
   \<and> word_ladder ''CAT'' ''BAT'' {''BAT''} \<noteq> [''CAT'', ''BAT'']"
  by (simp add: is_one_letter_different_def evaluate)

text \<open>
  C8 (length mismatch). When \<^verbatim>\<open>start\<close> and \<^verbatim>\<open>end\<close> have different lengths, the
  call returns the empty list (the model is a total function: the call ends and raises
  nothing), and every value of \<^verbatim>\<open>new_word\<close> that any configuration of the call still has
  to try has the length of \<^verbatim>\<open>start\<close>, hence is not \<^verbatim>\<open>end\<close>.
\<close>

theorem length_mismatch:
  assumes "length start \<noteq> length end_word"
  shows "word_ladder start end_word L = []
         \<and> (\<forall>c \<in> set (word_ladder_states start end_word L).
               \<forall>w \<in> set (pending_of c). length w = length start \<and> w \<noteq> end_word)"
proof
  show "word_ladder start end_word L = []"
    using assms by (auto simp: word_ladder_def run_length_mismatch)
next
  show "\<forall>c \<in> set (word_ladder_states start end_word L).
          \<forall>w \<in> set (pending_of c). length w = length start \<and> w \<noteq> end_word"
  proof (intro ballI)
    fix c w
    assume c: "c \<in> set (word_ladder_states start end_word L)" and w: "w \<in> set (pending_of c)"
    from c have "c \<in> set (states (insert start L) end_word (initial start))"
      by (simp add: word_ladder_states_def split: if_splits)
    then have "same_length start c"
      by (rule states_same_length)
    with w have "length w = length start"
      by (simp add: same_length_def words_of_def)
    with assms show "length w = length start \<and> w \<noteq> end_word"
      by auto
  qed
qed

theorem length_mismatch_witness:
  "length ''a'' \<noteq> length ''bb''
   \<and> word_ladder ''a'' ''bb'' {''bb''} = []
   \<and> Inner {''a''} [] ''a'' [''a''] [''z''] \<in> set (word_ladder_states ''a'' ''bb'' {''bb''})
   \<and> ''z'' \<in> set (pending_of (Inner {''a''} [] ''a'' [''a''] [''z'']))
   \<and> length ''z'' = length ''a'' \<and> ''z'' \<noteq> ''bb''"
proof -
  have h: "length ''a'' \<noteq> length ''bb''"
    by simp
  have m: "Inner {''a''} [] ''a'' [''a''] [''z''] \<in> set (word_ladder_states ''a'' ''bb'' {''bb''})"
    by (simp add: evaluate)
  have p: "''z'' \<in> set (pending_of (Inner {''a''} [] ''a'' [''a''] [''z'']))"
    by simp
  from length_mismatch [OF h, of "{''bb''}"] m p
  have "word_ladder ''a'' ''bb'' {''bb''} = [] \<and> length ''z'' = length ''a'' \<and> ''z'' \<noteq> ''bb''"
    by blast
  with h m p show ?thesis
    by blast
qed

text \<open>
  C9 (the visited set). Along the configurations a call passes through, \<^verbatim>\<open>visited\<close>
  only grows; at every configuration it holds exactly the tokens that were in the queue at
  that or an earlier configuration, that is, the tokens enqueued so far; and it is a subset
  of the call's copy of the dictionary (\<open>L\<close> with \<^verbatim>\<open>start\<close>), so for a finite \<open>L\<close> it has
  at most \<open>|L| + 1\<close> elements.
\<close>

theorem visited_invariant:
  "sorted_wrt (\<lambda>c c'. visited_of c \<subseteq> visited_of c') (word_ladder_states start end_word L)
   \<and> (\<forall>n < length (word_ladder_states start end_word L).
         visited_of (word_ladder_states start end_word L ! n)
           = (\<Union>i \<le> n. fst ` set (queue_of (word_ladder_states start end_word L ! i))))
   \<and> (\<forall>c \<in> set (word_ladder_states start end_word L).
         visited_of c \<subseteq> insert start L \<and> (finite L \<longrightarrow> card (visited_of c) \<le> card L + 1))"
proof (cases "start = end_word \<or> end_word \<notin> L")
  case True
  then show ?thesis
    by (auto simp: word_ladder_states_def)
next
  case False
  let ?tr = "states (insert start L) end_word (initial start)"
  have tr: "word_ladder_states start end_word L = ?tr"
    using False by (simp add: word_ladder_states_def)
  have a: "sorted_wrt (\<lambda>c c'. visited_of c \<subseteq> visited_of c') ?tr"
    by (rule states_visited_sorted)
  have b: "visited_of (?tr ! n) = (\<Union>i \<le> n. fst ` set (queue_of (?tr ! i)))" if n: "n < length ?tr" for n
  proof -
    have init: "fst ` set (active (initial start)) \<subseteq> visited_of (initial start)"
      by (simp add: initial_def)
    have first: "fst ` set (queue_of (?tr ! 0)) = {start}" "visited_of (initial start) = {start}"
      by (simp_all add: states_first initial_def)
    have "t \<in> visited_of (?tr ! n) \<longleftrightarrow> t \<in> (\<Union>i \<le> n. fst ` set (queue_of (?tr ! i)))" for t
    proof -
      have "t \<in> visited_of (?tr ! n)
          \<longleftrightarrow> t \<in> visited_of (initial start) \<or> (\<exists>i \<le> n. t \<in> fst ` set (queue_of (?tr ! i)))"
        using init n by (rule states_visited_enqueued)
      also have "\<dots> \<longleftrightarrow> (\<exists>i \<le> n. t \<in> fst ` set (queue_of (?tr ! i)))"
        using first by (metis singletonD singletonI zero_le)
      also have "\<dots> \<longleftrightarrow> t \<in> (\<Union>i \<le> n. fst ` set (queue_of (?tr ! i)))"
        by blast
      finally show ?thesis .
    qed
    then show ?thesis
      by blast
  qed
  have c: "visited_of c \<subseteq> insert start L \<and> (finite L \<longrightarrow> card (visited_of c) \<le> card L + 1)"
    if "c \<in> set ?tr" for c
  proof -
    from False that have "sound start end_word L c"
      by (intro states_sound) simp_all
    then have "visited_of c \<subseteq> insert start L"
      by (simp add: sound_def)
    then show ?thesis
      using card_visited_bound[of "visited_of c" start L] by blast
  qed
  show ?thesis
    unfolding tr using a b c by blast
qed

theorem visited_invariant_witness:
  "visited_of (word_ladder_states ''a'' ''c'' {''b'', ''c''} ! 0)
     \<subseteq> visited_of (word_ladder_states ''a'' ''c'' {''b'', ''c''} ! 2)
   \<and> 2 < length (word_ladder_states ''a'' ''c'' {''b'', ''c''})
   \<and> visited_of (word_ladder_states ''a'' ''c'' {''b'', ''c''} ! 2)
       = (\<Union>i \<le> 2. fst ` set (queue_of (word_ladder_states ''a'' ''c'' {''b'', ''c''} ! i)))
   \<and> word_ladder_states ''a'' ''c'' {''b'', ''c''} ! 2 \<in> set (word_ladder_states ''a'' ''c'' {''b'', ''c''})
   \<and> visited_of (word_ladder_states ''a'' ''c'' {''b'', ''c''} ! 2) = {''a'', ''b''}
   \<and> {''a'', ''b''} \<subseteq> insert ''a'' {''b'', ''c''}
   \<and> finite {''b'', ''c''}
   \<and> card {''a'', ''b''} \<le> card {''b'', ''c''} + 1"
proof -
  let ?tr = "word_ladder_states ''a'' ''c'' {''b'', ''c''}"
  have len: "2 < length ?tr"
    by (simp add: evaluate)
  have mem: "?tr ! 2 \<in> set ?tr"
    using len by simp
  have vis: "visited_of (?tr ! 2) = {''a'', ''b''}"
    by (simp add: evaluate insert_commute)
  have "sorted_wrt (\<lambda>c c'. visited_of c \<subseteq> visited_of c') ?tr"
    using visited_invariant [of "''a''" "''c''" "{''b'', ''c''}"] by blast
  then have grow: "visited_of (?tr ! 0) \<subseteq> visited_of (?tr ! 2)"
    using len sorted_wrt_nth_less[of "\<lambda>c c'. visited_of c \<subseteq> visited_of c'" ?tr 0 2] by simp
  have enq: "visited_of (?tr ! 2) = (\<Union>i \<le> 2. fst ` set (queue_of (?tr ! i)))"
    using visited_invariant [of "''a''" "''c''" "{''b'', ''c''}"] len by blast
  have bound: "visited_of (?tr ! 2) \<subseteq> insert ''a'' {''b'', ''c''}
      \<and> card (visited_of (?tr ! 2)) \<le> card {''b'', ''c''} + 1"
    using visited_invariant [of "''a''" "''c''" "{''b'', ''c''}"] mem by blast
  show ?thesis
    using len mem vis grow enq bound by simp
qed

text \<open>
  C5 (no caller mutation). After the call the object at the caller's address holds the set it
  held before, as does every other object the caller had; the result is the one
  \<open>word_ladder\<close> computes from that set, and \<^verbatim>\<open>start\<close> is added only to an object
  allocated by the call.
\<close>

theorem caller_dictionary_unchanged:
  assumes "dictionary < length h"
  shows "snd (word_ladder_store h start end_word dictionary) ! dictionary = h ! dictionary
         \<and> take (length h) (snd (word_ladder_store h start end_word dictionary)) = h
         \<and> fst (word_ladder_store h start end_word dictionary)
             = word_ladder start end_word (h ! dictionary)"
proof -
  let ?h' = "snd (word_ladder_store h start end_word dictionary)"
  have frame: "take (length h) ?h' = h"
    by (rule word_ladder_store_frame)
  have "?h' ! dictionary = take (length h) ?h' ! dictionary"
    using assms by simp
  with frame have "?h' ! dictionary = h ! dictionary"
    by simp
  with frame show ?thesis
    using assms by (simp add: word_ladder_store_result)
qed

theorem caller_dictionary_unchanged_witness:
  "(0::nat) < length [{''bat''}]
   \<and> snd (word_ladder_store [{''bat''}] ''cat'' ''bat'' 0) ! 0 = {''bat''}
   \<and> snd (word_ladder_store [{''bat''}] ''cat'' ''bat'' 0) = [{''bat''}, {''cat'', ''bat''}]
   \<and> fst (word_ladder_store [{''bat''}] ''cat'' ''bat'' 0) = [''cat'', ''bat'']"
proof -
  have h: "(0::nat) < length [{''bat''}]"
    by simp
  have s: "snd (word_ladder_store [{''bat''}] ''cat'' ''bat'' 0) = [{''bat''}, {''cat'', ''bat''}]"
    by (simp add: word_ladder_store_def set_copy_def set_add_def)
  show ?thesis
    using h s caller_dictionary_unchanged [OF h, of "''cat''" "''bat''"]
    by (simp add: scenario_cat_bat)
qed

text \<open>
  C1 (minimality). As stated, with adjacency meaning equal length and one differing
  position, the claim fails: the loops substitute lowercase letters only, so a shorter
  sequence through a token with another character is not seen. What holds: a non-empty
  result is no longer than any transformation sequence from \<^verbatim>\<open>start\<close> to \<^verbatim>\<open>end\<close>
  through \<open>L\<close> in which every step changes exactly one position to a lowercase letter
  \<open>a\<close> to \<open>z\<close>.
\<close>

theorem minimality:
  assumes "word_ladder start end_word L \<noteq> []"
    and "transformation lowercase_edit start end_word L q"
  shows "length (word_ladder start end_word L) \<le> length q"
proof (cases "start = end_word")
  case True
  from assms(2) have "q \<noteq> []"
    by (simp add: transformation_def)
  then have "1 \<le> length q"
    by (cases q) simp_all
  with True show ?thesis
    by (simp add: word_ladder_def)
next
  case False
  with assms(1) have run: "word_ladder start end_word L = run (insert start L) end_word (initial start)"
    by (simp add: word_ladder_def split: if_splits)
  have "ladder start (insert start L) q"
    using assms(2) by (rule transformation_ladder)
  moreover have "last q = end_word"
    using assms(2) by (simp add: transformation_def)
  moreover have "run (insert start L) end_word (initial start) \<noteq> []"
    using assms(1) run by simp
  ultimately have "length (run (insert start L) end_word (initial start)) \<le> length q"
    using False by (intro run_shortest)
  with run show ?thesis
    by simp
qed

theorem minimality_witness:
  "word_ladder ''hit'' ''cog'' {''hot'', ''dot'', ''dog'', ''lot'', ''log'', ''cog''} \<noteq> []
   \<and> transformation lowercase_edit ''hit'' ''cog''
       {''hot'', ''dot'', ''dog'', ''lot'', ''log'', ''cog''}
       [''hit'', ''hot'', ''lot'', ''log'', ''cog'']
   \<and> length (word_ladder ''hit'' ''cog'' {''hot'', ''dot'', ''dog'', ''lot'', ''log'', ''cog''})
       \<le> length [''hit'', ''hot'', ''lot'', ''log'', ''cog'']"
proof -
  let ?L = "{''hot'', ''dot'', ''dog'', ''lot'', ''log'', ''cog''}"
  have h1: "word_ladder ''hit'' ''cog'' ?L \<noteq> []"
    by (simp add: scenario_hit_cog)
  have h2: "transformation lowercase_edit ''hit'' ''cog'' ?L [''hit'', ''hot'', ''lot'', ''log'', ''cog'']"
    by (simp add: transformation_def lowercase_edit_def is_one_letter_different_def alphabet_def)
  show ?thesis
    using h1 h2 minimality [OF h1 h2] by simp
qed

theorem minimality_counterexample:
  "word_ladder ''aa'' ''bb'' {''Aa'', ''Ab'', ''bb'', ''ca'', ''cc'', ''bc''} \<noteq> []
   \<and> transformation is_one_letter_different ''aa'' ''bb''
       {''Aa'', ''Ab'', ''bb'', ''ca'', ''cc'', ''bc''} [''aa'', ''Aa'', ''Ab'', ''bb'']
   \<and> \<not> length (word_ladder ''aa'' ''bb'' {''Aa'', ''Ab'', ''bb'', ''ca'', ''cc'', ''bc''})
         \<le> length [''aa'', ''Aa'', ''Ab'', ''bb'']"
proof -
  have r: "word_ladder ''aa'' ''bb'' {''Aa'', ''Ab'', ''bb'', ''ca'', ''cc'', ''bc''}
      = [''aa'', ''ca'', ''cc'', ''bc'', ''bb'']"
    by (simp add: evaluate)
  have t: "transformation is_one_letter_different ''aa'' ''bb''
      {''Aa'', ''Ab'', ''bb'', ''ca'', ''cc'', ''bc''} [''aa'', ''Aa'', ''Ab'', ''bb'']"
    by (simp add: transformation_def is_one_letter_different_def)
  show ?thesis
    using t by (simp add: r)
qed

end
